theory Spec2Isabelle
  imports Complex_Main
begin

section \<open>Symbolic expressions\<close>

text \<open>
  \<^verbatim>\<open>approximations.py\<close> works on sympy expressions in the single symbol \<^verbatim>\<open>x\<close>
  (\<^verbatim>\<open>self.x = symbols('x')\<close>). An expression is a tree; \<open>Sym\<close> is the symbol \<^verbatim>\<open>x\<close>.
  sympy keeps numbers exact, so a number is modelled by the real it denotes.
\<close>

datatype expr =
    Num real
  | Sym
  | Add expr expr
  | Mul expr expr
  | Pw expr nat
  | Sin expr
  | Cos expr

text \<open>The value of an expression when \<^verbatim>\<open>x\<close> is replaced by a number.\<close>

fun denote :: "expr \<Rightarrow> real \<Rightarrow> real" where
  "denote (Num c) x = c"
| "denote Sym x = x"
| "denote (Add a b) x = denote a x + denote b x"
| "denote (Mul a b) x = denote a x * denote b x"
| "denote (Pw a n) x = denote a x ^ n"
| "denote (Sin a) x = sin (denote a x)"
| "denote (Cos a) x = cos (denote a x)"

text \<open>\<^verbatim>\<open>sympy.diff(e, x)\<close>: the derivative with respect to \<^verbatim>\<open>x\<close>, rule by rule.\<close>

fun diff :: "expr \<Rightarrow> expr" where
  "diff (Num c) = Num 0"
| "diff Sym = Num 1"
| "diff (Add a b) = Add (diff a) (diff b)"
| "diff (Mul a b) = Add (Mul (diff a) b) (Mul a (diff b))"
| "diff (Pw a n) = Mul (Mul (Num (real n)) (Pw a (n - 1))) (diff a)"
| "diff (Sin a) = Mul (Cos a) (diff a)"
| "diff (Cos a) = Mul (Mul (Num (- 1)) (Sin a)) (diff a)"

text \<open>\<^verbatim>\<open>diff(e, x, n)\<close>: the derivative taken \<open>n\<close> times.\<close>

definition diff_n :: "expr \<Rightarrow> nat \<Rightarrow> expr" where
  "diff_n e n = (diff ^^ n) e"

text \<open>\<^verbatim>\<open>e.subs(x, a)\<close> for a number \<open>a\<close>: the exact value of \<open>e\<close> at \<open>a\<close>.\<close>

definition subs :: "expr \<Rightarrow> real \<Rightarrow> real" where
  "subs e a = denote e a"

subsection \<open>Arithmetic on expressions as sympy evaluates it\<close>

text \<open>
  sympy evaluates an operation on expressions when it is built: a zero factor gives \<open>0\<close>,
  a zero exponent gives \<open>1\<close>, adding \<open>0\<close> changes nothing and numbers are combined.
  \<open>sym_shift a\<close> is \<^verbatim>\<open>x - a\<close>, \<open>sym_pow e n\<close> is \<^verbatim>\<open>e ** n\<close>, \<open>sym_mul c e\<close> is \<^verbatim>\<open>c * e\<close>
  for a number \<open>c\<close>, and \<open>sym_add a b\<close> is \<^verbatim>\<open>a + b\<close>.
\<close>

definition sym_shift :: "real \<Rightarrow> expr" where
  "sym_shift a = (if a = 0 then Sym else Add Sym (Num (- a)))"

definition sym_pow :: "expr \<Rightarrow> nat \<Rightarrow> expr" where
  "sym_pow e n = (if n = 0 then Num 1 else if n = 1 then e else Pw e n)"

fun sym_mul :: "real \<Rightarrow> expr \<Rightarrow> expr" where
  "sym_mul c (Num d) = Num (c * d)"
| "sym_mul c e = (if c = 0 then Num 0 else if c = 1 then e else Mul (Num c) e)"

fun sym_add :: "expr \<Rightarrow> expr \<Rightarrow> expr" where
  "sym_add (Num c) (Num d) = Num (c + d)"
| "sym_add (Num c) b = (if c = 0 then b else Add (Num c) b)"
| "sym_add a (Num d) = (if d = 0 then a else Add a (Num d))"
| "sym_add a b = Add a b"

subsection \<open>Numeric evaluation with numpy\<close>

text \<open>
  \<^verbatim>\<open>lambdify(x, e, modules=["numpy"])\<close> turns \<open>e\<close> into a Python function of \<^verbatim>\<open>x\<close> whose
  body is the expression itself, computed with numpy. Its argument and its result are
  a scalar or a one-dimensional array. A number of the expression is a Python scalar;
  an operation on a scalar and an array is taken element by element (broadcasting).
  The two arrays of a binary operation both come from the one argument, so they have
  the same length.
\<close>

datatype ndvalue = Scalar real | Array "real list"

fun shape :: "ndvalue \<Rightarrow> nat list" where
  "shape (Scalar v) = []"
| "shape (Array vs) = [length vs]"

fun np_unary :: "(real \<Rightarrow> real) \<Rightarrow> ndvalue \<Rightarrow> ndvalue" where
  "np_unary f (Scalar a) = Scalar (f a)"
| "np_unary f (Array as) = Array (map f as)"

fun np_binary :: "(real \<Rightarrow> real \<Rightarrow> real) \<Rightarrow> ndvalue \<Rightarrow> ndvalue \<Rightarrow> ndvalue" where
  "np_binary f (Scalar a) (Scalar b) = Scalar (f a b)"
| "np_binary f (Scalar a) (Array bs) = Array (map (f a) bs)"
| "np_binary f (Array as) (Scalar b) = Array (map (\<lambda>a. f a b) as)"
| "np_binary f (Array as) (Array bs) = Array (map2 f as bs)"

fun np_eval :: "expr \<Rightarrow> ndvalue \<Rightarrow> ndvalue" where
  "np_eval (Num c) x = Scalar c"
| "np_eval Sym x = x"
| "np_eval (Add a b) x = np_binary (+) (np_eval a x) (np_eval b x)"
| "np_eval (Mul a b) x = np_binary (*) (np_eval a x) (np_eval b x)"
| "np_eval (Pw a n) x = np_unary (\<lambda>v. v ^ n) (np_eval a x)"
| "np_eval (Sin a) x = np_unary sin (np_eval a x)"
| "np_eval (Cos a) x = np_unary cos (np_eval a x)"

definition lambdify :: "expr \<Rightarrow> ndvalue \<Rightarrow> ndvalue" where
  "lambdify e = np_eval e"

section \<open>TaylorApproximation\<close>

record TaylorApproximation =
  degree :: int
  point :: real
  func_symbolic :: expr
  coefficients :: "real list"

text \<open>
  \<^verbatim>\<open>__init__(self, function, degree, point=0)\<close>. \<open>func\<close> is \<^verbatim>\<open>function(self.x)\<close>, the
  expression the caller's function builds from the symbol.
\<close>

definition taylor_init :: "expr \<Rightarrow> int \<Rightarrow> real \<Rightarrow> TaylorApproximation" where
  "taylor_init func degree0 point0 =
     \<lparr>degree = degree0, point = point0, func_symbolic = func, coefficients = []\<rparr>"

text \<open>The body of the loop of \<^verbatim>\<open>compute_coefficients\<close> for one \<open>n\<close>.\<close>

definition coefficient_step :: "nat \<Rightarrow> TaylorApproximation \<Rightarrow> TaylorApproximation" where
  "coefficient_step n t =
     (let nth_derivative = diff_n (func_symbolic t) n;
          coeff = subs nth_derivative (point t) / fact n
      in t\<lparr>coefficients := coefficients t @ [coeff]\<rparr>)"

text \<open>
  \<^verbatim>\<open>for n in range(self.degree + 1)\<close>: the range is empty when \<open>degree + 1 \<le> 0\<close>.
  The source has no \<^verbatim>\<open>raise\<close> and no check of \<open>degree\<close>, so the model has no error
  branch.
\<close>

definition taylor_compute_coefficients :: "TaylorApproximation \<Rightarrow> TaylorApproximation" where
  "taylor_compute_coefficients t = fold coefficient_step [0..<nat (degree t + 1)] t"

text \<open>
  \<^verbatim>\<open>sum(coeff * (self.x - self.point) ** n for n, coeff in enumerate(self.coefficients))\<close>:
  Python's \<^verbatim>\<open>sum\<close> starts from \<open>0\<close> and adds the terms from left to right.
\<close>

definition series_term :: "real \<Rightarrow> nat \<times> real \<Rightarrow> expr" where
  "series_term point0 nc = sym_mul (snd nc) (sym_pow (sym_shift point0) (fst nc))"

definition series :: "TaylorApproximation \<Rightarrow> expr" where
  "series t =
     fold (\<lambda>nc acc. sym_add acc (series_term (point t) nc))
       (enumerate 0 (coefficients t)) (Num 0)"

definition evaluate_series :: "TaylorApproximation \<Rightarrow> ndvalue \<Rightarrow> ndvalue" where
  "evaluate_series t x_values = (let series_func = lambdify (series t) in series_func x_values)"

section \<open>Library functions used by PadeApproximation\<close>

datatype error = ValueError | LinAlgError

text \<open>
  \<^verbatim>\<open>sympy.series(e, x, x0, n)\<close> expands \<open>e\<close> in powers of \<open>x - x0\<close> and keeps the powers
  below \<open>n\<close>; \<^verbatim>\<open>removeO()\<close> drops the order term. The result is given by its
  coefficients, lowest power first: the coefficient of \<open>(x - x0)\<^sup>i\<close> is the \<open>i\<close>-th
  derivative at \<open>x0\<close> over \<open>i!\<close>. When \<open>x0\<close> is not passed it is \<open>0\<close>. Only the
  coefficients of the powers below \<open>n\<close> are read by the caller, so a higher power that
  sympy may leave in the expansion of a polynomial makes no difference.
\<close>

definition series_coeff :: "expr \<Rightarrow> real \<Rightarrow> nat \<Rightarrow> real" where
  "series_coeff e x0 i = denote (diff_n e i) x0 / fact i"

definition sympy_series :: "expr \<Rightarrow> real \<Rightarrow> int \<Rightarrow> real list" where
  "sympy_series e x0 n = map (series_coeff e x0) [0..<nat n]"

text \<open>\<^verbatim>\<open>s.coeff(x, i)\<close>: the coefficient of \<open>x\<^sup>i\<close>, \<open>0\<close> when the power is absent.\<close>

definition coeff :: "real list \<Rightarrow> nat \<Rightarrow> real" where
  "coeff s i = (if i < length s then s ! i else 0)"

text \<open>
  \<^verbatim>\<open>numpy.poly1d(c)\<close>: a polynomial given by its coefficients, highest power first;
  leading zeros are removed, and the zero polynomial is \<open>[0]\<close>.
\<close>

definition poly1d :: "real list \<Rightarrow> real list" where
  "poly1d c = (case dropWhile (\<lambda>v. v = 0) c of [] \<Rightarrow> [0] | v # vs \<Rightarrow> v # vs)"

text \<open>
  \<^verbatim>\<open>scipy.linalg.solve(C, b)\<close>: the solution of the square system \<open>C x = b\<close>, or
  \<^verbatim>\<open>LinAlgError\<close> when \<open>C\<close> is singular. The model is Gaussian elimination in exact
  arithmetic on the rows of \<open>C\<close> extended by the entry of \<open>b\<close>: take a row whose first
  entry is not zero, scale it, remove the first unknown from the other rows, solve the
  smaller system, and substitute back. Floating-point rounding is not modelled.
\<close>

definition dot :: "real list \<Rightarrow> real list \<Rightarrow> real" where
  "dot u v = sum_list (map2 (*) u v)"

fun find_pivot :: "real list list \<Rightarrow> (real list \<times> real list list) option" where
  "find_pivot [] = None"
| "find_pivot (r # rs) =
     (if r \<noteq> [] \<and> hd r \<noteq> 0 then Some (r, rs)
      else (case find_pivot rs of None \<Rightarrow> None | Some (p, others) \<Rightarrow> Some (p, r # others)))"

definition eliminate :: "real list \<Rightarrow> real list \<Rightarrow> real list" where
  "eliminate p r = map2 (\<lambda>pv rv. rv - hd r * pv) (tl p) (tl r)"

fun gauss :: "nat \<Rightarrow> real list list \<Rightarrow> error + real list" where
  "gauss 0 rows = Inr []"
| "gauss (Suc n) rows =
     (case find_pivot rows of
        None \<Rightarrow> Inl LinAlgError
      | Some (p, others) \<Rightarrow>
          (let p' = map (\<lambda>v. v / hd p) p in
           case gauss n (map (eliminate p') others) of
             Inl e \<Rightarrow> Inl e
           | Inr xs \<Rightarrow> Inr ((last p' - dot (butlast (tl p')) xs) # xs)))"

definition linalg_solve :: "real list list \<Rightarrow> real list \<Rightarrow> error + real list" where
  "linalg_solve C b = gauss (length C) (map2 (\<lambda>row v. row @ [v]) C b)"

text \<open>
  \<^verbatim>\<open>scipy.interpolate.pade(an, m)\<close> with \<open>n\<close> left out. \<open>m\<close> is the order of the
  denominator \<open>q\<close> and \<open>n = len(an) - 1 - m\<close> the order of the numerator \<open>p\<close>:
  \<^verbatim>\<open>
  n = len(an) - 1 - m
  if n < 0: raise ValueError
  N = m + n
  if N > len(an) - 1: raise ValueError
  an = an[:N+1]
  Akj = eye(N+1, n+1)
  Bkj = zeros((N+1, m))                      # ValueError when m < 0
  for row in range(1, m+1):   Bkj[row, :row] = -(an[:row])[::-1]
  for row in range(m+1, N+1): Bkj[row, :]    = -(an[row-m:row])[::-1]
  C = hstack((Akj, Bkj))
  pq = linalg.solve(C, an)
  p = pq[:n+1]
  q = r_[1.0, pq[n+1:]]
  return poly1d(p[::-1]), poly1d(q[::-1])
  \<close>
\<close>

definition eye_row :: "nat \<Rightarrow> nat \<Rightarrow> real list" where
  "eye_row k row = map (\<lambda>c. if c = row then 1 else 0) [0..<k]"

definition Bkj_row :: "real list \<Rightarrow> nat \<Rightarrow> nat \<Rightarrow> real list" where
  "Bkj_row an m row =
     (if 1 \<le> row \<and> row \<le> m then map uminus (rev (take row an)) @ replicate (m - row) 0
      else if m + 1 \<le> row then map uminus (rev (take m (drop (row - m) an)))
      else replicate m 0)"

definition pade_matrix :: "real list \<Rightarrow> nat \<Rightarrow> nat \<Rightarrow> real list list" where
  "pade_matrix an m n =
     map (\<lambda>row. eye_row (n + 1) row @ Bkj_row an m row) [0..<m + n + 1]"

definition pade :: "real list \<Rightarrow> int \<Rightarrow> error + (real list \<times> real list)" where
  "pade an m =
     (let n = int (length an) - 1 - m in
      if n < 0 then Inl ValueError
      else let N = m + n in
      if N > int (length an) - 1 then Inl ValueError
      else if m < 0 then Inl ValueError
      else
        (let an' = take (nat (N + 1)) an;
             C = pade_matrix an' (nat m) (nat n)
         in case linalg_solve C an' of
              Inl e \<Rightarrow> Inl e
            | Inr pq \<Rightarrow>
                (let p = take (nat (n + 1)) pq;
                     q = 1 # drop (nat (n + 1)) pq
                 in Inr (poly1d (rev p), poly1d (rev q)))))"

section \<open>PadeApproximation\<close>

text \<open>
  \<open>numerator\<close> and \<open>denominator\<close> are \<^verbatim>\<open>None\<close> until \<^verbatim>\<open>compute_coefficients\<close> has
  run, then the coefficient lists of two \<^verbatim>\<open>poly1d\<close> objects.
\<close>

record PadeApproximation =
  pade_function :: expr
  order_m :: int
  order_n :: int
  pade_point :: real
  numerator :: "real list option"
  denominator :: "real list option"

text \<open>\<^verbatim>\<open>__init__(self, function, order_m, order_n, point=0)\<close>.\<close>

definition pade_init :: "expr \<Rightarrow> int \<Rightarrow> int \<Rightarrow> real \<Rightarrow> PadeApproximation" where
  "pade_init func m n point0 =
     \<lparr>pade_function = func, order_m = m, order_n = n, pade_point = point0,
      numerator = None, denominator = None\<rparr>"

text \<open>
  The first two statements of \<^verbatim>\<open>compute_coefficients\<close>:
  \<^verbatim>\<open>
  taylor_series = series(self.function, self.x, n=self.order_m + self.order_n + 1).removeO()
  taylor_coeffs = [float(taylor_series.coeff(self.x, i).evalf())
                   for i in range(self.order_m + self.order_n + 1)]
  \<close>
  The call of \<^verbatim>\<open>series\<close> passes no \<open>x0\<close>, so the expansion is about \<open>0\<close>;
  \<^verbatim>\<open>self.point\<close> is not read. \<^verbatim>\<open>float\<close> is the identity on the exact value: rounding to
  a double is not modelled.
\<close>

definition pade_taylor_coeffs :: "PadeApproximation \<Rightarrow> real list" where
  "pade_taylor_coeffs p =
     (let taylor_series = sympy_series (pade_function p) 0 (order_m p + order_n p + 1)
      in map (\<lambda>i. coeff taylor_series i) [0..<nat (order_m p + order_n p + 1)])"

text \<open>
  \<^verbatim>\<open>self.numerator, self.denominator = pade(taylor_coeffs, self.order_n)\<close>. An exception
  of \<^verbatim>\<open>pade\<close> is not caught: it leaves the method before the assignment, so the
  instance is unchanged and the caller gets the error.
\<close>

definition pade_compute_coefficients :: "PadeApproximation \<Rightarrow> error + PadeApproximation" where
  "pade_compute_coefficients p =
     (let taylor_coeffs = pade_taylor_coeffs p in
      case pade taylor_coeffs (order_n p) of
        Inl e \<Rightarrow> Inl e
      | Inr (num, den) \<Rightarrow> Inr (p\<lparr>numerator := Some num, denominator := Some den\<rparr>))"

text \<open>
  The power series of a quotient of two \<^verbatim>\<open>poly1d\<close> polynomials about \<open>0\<close>.
  \<open>poly_coeff c i\<close> is the coefficient of \<open>x\<^sup>i\<close>. The \<open>k\<close>-th coefficient of \<open>P / Q\<close> is
  \<open>(p\<^sub>k - \<Sum>\<^bsub>j=1..k\<^esub> q\<^sub>j c\<^bsub>k-j\<^esub>) / q\<^sub>0\<close>; \<open>rational_series P Q n\<close> is the list of the first
  \<open>n\<close> of them.
\<close>

definition poly_coeff :: "real list \<Rightarrow> nat \<Rightarrow> real" where
  "poly_coeff c i = (if i < length c then rev c ! i else 0)"

definition rational_series_step :: "real list \<Rightarrow> real list \<Rightarrow> nat \<Rightarrow> real list \<Rightarrow> real list" where
  "rational_series_step P Q k cs =
     cs @ [(poly_coeff P k - (\<Sum>j\<leftarrow>[1..<Suc k]. poly_coeff Q j * cs ! (k - j))) / poly_coeff Q 0]"

definition rational_series :: "real list \<Rightarrow> real list \<Rightarrow> nat \<Rightarrow> real list" where
  "rational_series P Q n = fold (rational_series_step P Q) [0..<n] []"

section \<open>The model of differentiation is the derivative\<close>

lemma denote_fun:
  "denote (Num c) = (\<lambda>x. c)"
  "denote Sym = (\<lambda>x. x)"
  "denote (Add a b) = (\<lambda>x. denote a x + denote b x)"
  "denote (Mul a b) = (\<lambda>x. denote a x * denote b x)"
  "denote (Pw a n) = (\<lambda>x. denote a x ^ n)"
  "denote (Sin a) = (\<lambda>x. sin (denote a x))"
  "denote (Cos a) = (\<lambda>x. cos (denote a x))"
  by (rule ext, simp)+

lemma denote_diff: "(denote e has_real_derivative denote (diff e) x) (at x)"
proof (induction e arbitrary: x)
  case (Num c)
  show ?case by (simp add: denote_fun)
next
  case Sym
  show ?case by (simp add: denote_fun)
next
  case (Add a b)
  show ?case unfolding denote_fun(3) diff.simps denote.simps
    by (rule DERIV_add [OF Add.IH(1) Add.IH(2)])
next
  case (Mul a b)
  have "((\<lambda>x. denote a x * denote b x) has_real_derivative
        denote (diff a) x * denote b x + denote (diff b) x * denote a x) (at x)"
    by (auto intro!: derivative_eq_intros Mul.IH)
  then show ?case unfolding denote_fun(4) by (simp add: mult.commute)
next
  case (Pw a n)
  have "((\<lambda>x. denote a x ^ n) has_real_derivative
        of_nat n * (denote (diff a) x * denote a x ^ (n - 1))) (at x)"
    by (auto intro!: derivative_eq_intros Pw.IH)
  then show ?case unfolding denote_fun(5) by (simp add: mult_ac)
next
  case (Sin a)
  have "((\<lambda>x. sin (denote a x)) has_real_derivative
        cos (denote a x) * denote (diff a) x) (at x)"
    by (auto intro!: derivative_eq_intros Sin.IH)
  then show ?case unfolding denote_fun(6) by simp
next
  case (Cos a)
  have "((\<lambda>x. cos (denote a x)) has_real_derivative
        - sin (denote a x) * denote (diff a) x) (at x)"
    by (auto intro!: derivative_eq_intros Cos.IH)
  then show ?case unfolding denote_fun(7) by simp
qed

lemma diff_n_Suc: "diff_n e (Suc n) = diff (diff_n e n)"
  by (simp add: diff_n_def)

lemma denote_diff_n:
  "(denote (diff_n e n) has_real_derivative denote (diff_n e (Suc n)) x) (at x)"
  unfolding diff_n_Suc by (rule denote_diff)

section \<open>The loop of compute_coefficients\<close>

lemma fold_coefficient_step:
  "fold coefficient_step ns t =
     t\<lparr>coefficients := coefficients t @
        map (\<lambda>n. subs (diff_n (func_symbolic t) n) (point t) / fact n) ns\<rparr>"
proof (induction ns arbitrary: t)
  case Nil
  show ?case by simp
next
  case (Cons n ns)
  have step: "coefficient_step n t =
      t\<lparr>coefficients := coefficients t @
        [subs (diff_n (func_symbolic t) n) (point t) / fact n]\<rparr>"
    by (simp add: coefficient_step_def Let_def)
  show ?case by (simp add: Cons.IH step)
qed

lemma taylor_compute_coefficients_eq:
  "taylor_compute_coefficients t =
     t\<lparr>coefficients := coefficients t @
        map (\<lambda>n. subs (diff_n (func_symbolic t) n) (point t) / fact n)
          [0..<nat (degree t + 1)]\<rparr>"
  unfolding taylor_compute_coefficients_def by (rule fold_coefficient_step)

lemma coefficients_after_compute:
  assumes "0 \<le> d"
  shows "coefficients (taylor_compute_coefficients (taylor_init f d a))
      = map (\<lambda>n. denote (diff_n f n) a / fact n) [0..<Suc (nat d)]"
proof -
  have n: "nat (d + 1) = Suc (nat d)" using assms by simp
  show ?thesis
    by (simp add: taylor_compute_coefficients_eq taylor_init_def subs_def n del: upt_Suc)
qed

section \<open>Claims about TaylorApproximation\<close>

text \<open>
  C1. For every expression \<open>f\<close> and every degree \<open>d \<ge> 0\<close>, one call of
  \<^verbatim>\<open>compute_coefficients\<close> on a new instance gives a list of \<open>d + 1\<close> coefficients whose
  \<open>n\<close>-th entry is the value at \<open>point\<close> of the \<open>n\<close>-th derivative of \<open>f\<close>, divided
  by \<open>n!\<close>, as an exact number. The last two conjuncts say what the \<open>n\<close>-th derivative
  is: \<open>diff_n f 0\<close> is \<open>f\<close>, and each \<open>diff_n f (n + 1)\<close> denotes the derivative of what
  \<open>diff_n f n\<close> denotes.
\<close>

theorem taylor_coefficients_are_derivatives:
  assumes "0 \<le> d"
  shows "length (coefficients (taylor_compute_coefficients (taylor_init f d a))) = nat d + 1
    \<and> (\<forall>n. n \<le> nat d \<longrightarrow>
          coefficients (taylor_compute_coefficients (taylor_init f d a)) ! n
            = denote (diff_n f n) a / fact n)
    \<and> diff_n f 0 = f
    \<and> (\<forall>n x. (denote (diff_n f n) has_real_derivative denote (diff_n f (Suc n)) x) (at x))"
proof -
  note cs = coefficients_after_compute [OF assms, of f a]
  have len: "length (coefficients (taylor_compute_coefficients (taylor_init f d a))) = nat d + 1"
    unfolding cs by simp
  have nth: "coefficients (taylor_compute_coefficients (taylor_init f d a)) ! n
            = denote (diff_n f n) a / fact n" if "n \<le> nat d" for n
    unfolding cs using that by (simp del: upt_Suc)
  have d0: "diff_n f 0 = f" by (simp add: diff_n_def)
  show ?thesis using len nth d0 denote_diff_n by blast
qed

text \<open>
  The spec's example: for \<open>sin\<close>, degree 4 and point 0 the list has five entries and
  the coefficient of \<open>x\<^sup>3\<close> is \<open>-1/6\<close>.
\<close>

theorem taylor_coefficients_are_derivatives_witness:
  "(0::int) \<le> 4
   \<and> length (coefficients (taylor_compute_coefficients (taylor_init (Sin Sym) 4 0))) = 5
   \<and> coefficients (taylor_compute_coefficients (taylor_init (Sin Sym) 4 0)) ! 3 = - 1 / 6"
  using taylor_coefficients_are_derivatives [of 4 "Sin Sym" 0]
  by (simp add: diff_n_def eval_nat_numeral)

text \<open>
  C5, as the spec states it: for \<open>f(x) = x\<^sup>k\<close> the coefficients are \<open>c\<^sub>k = 1\<close> and \<open>0\<close>
  elsewhere at any expansion point. It fails away from \<open>0\<close>: for \<open>f(x) = x\<close>, degree 1
  and point 1 the code computes \<open>[1, 1]\<close> (\<open>x = 1 + 1 \<sqdot> (x - 1)\<close>), so \<open>c\<^sub>0\<close> is not \<open>0\<close>.
\<close>

theorem monomial_counterexample:
  "coefficients (taylor_compute_coefficients (taylor_init (Pw Sym 1) 1 1)) = [1, 1]
   \<and> coefficients (taylor_compute_coefficients (taylor_init (Pw Sym 1) 1 1)) ! 0 \<noteq> 0"
  by (simp add: taylor_compute_coefficients_eq taylor_init_def subs_def diff_n_def numeral_2_eq_2)

lemma binomial_step: "Suc n * (k choose Suc n) = (k - n) * (k choose n)"
  using binomial_absorption [of n k] binomial_absorb_comp [of k n] by (simp only:)

lemma monomial_diff_n:
  "denote (diff_n (Pw Sym k) n) x = real (fact n * (k choose n)) * x ^ (k - n)"
proof (induction n arbitrary: x)
  case 0
  show ?case by (simp add: diff_n_def)
next
  case (Suc n)
  let ?c = "real (fact n * (k choose n))"
  have fn: "denote (diff_n (Pw Sym k) n) = (\<lambda>y. ?c * y ^ (k - n))"
    by (rule ext) (rule Suc.IH)
  have D1: "((\<lambda>y. ?c * y ^ (k - n)) has_real_derivative
        denote (diff_n (Pw Sym k) (Suc n)) x) (at x)"
    using denote_diff_n [of "Pw Sym k" n x] unfolding fn .
  have D2: "((\<lambda>y. ?c * y ^ (k - n)) has_real_derivative
        ?c * (real (k - n) * x ^ (k - n - 1))) (at x)"
    by (auto intro!: derivative_eq_intros)
  have eq: "denote (diff_n (Pw Sym k) (Suc n)) x = ?c * (real (k - n) * x ^ (k - n - 1))"
    by (rule DERIV_unique [OF D1 D2])
  have "fact (Suc n) * (k choose Suc n) = fact n * (Suc n * (k choose Suc n))"
    by (simp only: fact_Suc of_nat_id mult_ac)
  also have "\<dots> = fact n * ((k - n) * (k choose n))"
    by (simp only: binomial_step)
  finally have "fact (Suc n) * (k choose Suc n) = fact n * (k choose n) * (k - n)"
    by (simp only: mult_ac)
  then have "real (fact (Suc n) * (k choose Suc n)) = ?c * real (k - n)"
    by (metis of_nat_mult)
  then show ?case unfolding eq by (simp add: mult_ac)
qed

text \<open>
  C5, amended: for \<open>f(x) = x\<^sup>k\<close>, every degree \<open>d \<ge> k\<close> and every expansion point \<open>a\<close>,
  the \<open>n\<close>-th coefficient (\<open>n \<le> d\<close>) is the binomial coefficient \<open>k choose n\<close> times
  \<open>a\<^bsup>k-n\<^esup>\<close>, the coefficient of \<open>(x - a)\<^sup>n\<close> in \<open>x\<^sup>k\<close>; at the expansion point \<open>0\<close> this is
  \<open>c\<^sub>k = 1\<close> and every other coefficient \<open>0\<close>.
\<close>

theorem monomial_coefficients:
  assumes "int k \<le> d" and "n \<le> nat d"
  shows "coefficients (taylor_compute_coefficients (taylor_init (Pw Sym k) d a)) ! n
           = real (k choose n) * a ^ (k - n)
       \<and> (a = 0 \<longrightarrow>
           coefficients (taylor_compute_coefficients (taylor_init (Pw Sym k) d a)) ! n
             = (if n = k then 1 else 0))"
proof -
  have d: "0 \<le> d" using assms(1) by simp
  have "coefficients (taylor_compute_coefficients (taylor_init (Pw Sym k) d a)) ! n
      = denote (diff_n (Pw Sym k) n) a / fact n"
    unfolding coefficients_after_compute [OF d] using assms(2) by (simp del: upt_Suc)
  then have main: "coefficients (taylor_compute_coefficients (taylor_init (Pw Sym k) d a)) ! n
      = real (k choose n) * a ^ (k - n)"
    by (simp add: monomial_diff_n)
  have "real (k choose n) * (0::real) ^ (k - n) = (if n = k then 1 else 0)"
    by (cases "n < k"; cases "n = k") (auto simp: binomial_eq_0)
  with main show ?thesis by auto
qed

theorem monomial_coefficients_witness:
  "int 2 \<le> 3 \<and> (1::nat) \<le> nat 3
   \<and> coefficients (taylor_compute_coefficients (taylor_init (Pw Sym 2) 3 5)) ! 1 = 10
   \<and> coefficients (taylor_compute_coefficients (taylor_init (Pw Sym 2) 3 0)) ! 2 = 1"
  using monomial_coefficients [of 2 3 1 5] monomial_coefficients [of 2 3 2 0] by simp

text \<open>
  What the function built by \<^verbatim>\<open>lambdify\<close> returns. On a scalar it returns the value of the
  expression. On an array it returns the array of the values, element by element, unless
  no operand of the expression is an array, which is when the expression has no
  \<^verbatim>\<open>x\<close> in it: then the result is a scalar. The series of \<open>sin\<close> of degree 4 about
  \<open>0\<close>, the one \<^verbatim>\<open>main.py\<close> plots, is \<open>x - x\<^sup>3/6\<close> and keeps the shape of an array.
\<close>

lemma np_eval_scalar: "np_eval e (Scalar v) = Scalar (denote e v)"
  by (induction e) simp_all

lemma map2_same: "map2 f (map g xs) (map h xs) = map (\<lambda>x. f (g x) (h x)) xs"
  by (induction xs) simp_all

lemma np_eval_array:
  "np_eval e (Array xs) = Array (map (denote e) xs)
   \<or> (\<exists>c. np_eval e (Array xs) = Scalar c \<and> (\<forall>x. denote e x = c))"
  by (induction e) (auto simp: map2_same)

lemma evaluate_series_scalar:
  "evaluate_series t (Scalar v) = Scalar (denote (series t) v)"
  by (simp add: evaluate_series_def lambdify_def np_eval_scalar)

lemma sin_degree_4_series:
  "series (taylor_compute_coefficients (taylor_init (Sin Sym) 4 0))
     = Add Sym (Mul (Num (- (1 / 6))) (Pw Sym 3))"
  by (simp add: taylor_compute_coefficients_eq taylor_init_def series_def series_term_def
      sym_pow_def sym_shift_def subs_def diff_n_def eval_nat_numeral upt_rec enumerate_eq_zip)

lemma sin_degree_4_keeps_shape:
  "shape (evaluate_series (taylor_compute_coefficients (taylor_init (Sin Sym) 4 0)) (Array xs))
     = shape (Array xs)"
  by (simp add: evaluate_series_def lambdify_def sin_degree_4_series)

text \<open>
  C7. \<^verbatim>\<open>evaluate_series\<close> does not keep the shape of an array when the series is a
  constant: for \<open>sin\<close>, degree 0 and point 0 the only coefficient is \<open>sin 0 = 0\<close>, the
  series is the number \<open>0\<close>, the function \<^verbatim>\<open>lambdify\<close> builds ignores its argument, and
  the result for an array of any length is the scalar \<open>0\<close>.
\<close>

theorem constant_series_loses_shape:
  "evaluate_series (taylor_compute_coefficients (taylor_init (Sin Sym) 0 0)) (Array xs) = Scalar 0
   \<and> shape (evaluate_series (taylor_compute_coefficients (taylor_init (Sin Sym) 0 0))
        (Array (replicate 400 0))) \<noteq> shape (Array (replicate 400 0))"
  by (simp add: taylor_compute_coefficients_eq taylor_init_def evaluate_series_def lambdify_def
      series_def series_term_def sym_pow_def subs_def diff_n_def)

text \<open>
  C10. On an instance whose coefficients have not been computed, \<^verbatim>\<open>series()\<close> is the
  sum over the empty list, the number \<open>0\<close>, and \<^verbatim>\<open>evaluate_series\<close> returns \<open>0\<close> for any
  argument: nothing reports that the instance is not initialised.
\<close>

theorem series_before_compute_is_zero:
  "series (taylor_init f d a) = Num 0
   \<and> evaluate_series (taylor_init f d a) x_values = Scalar 0"
  by (simp add: series_def taylor_init_def evaluate_series_def lambdify_def)

section \<open>Claims about PadeApproximation\<close>

lemma pade_taylor_coeffs_eq:
  "pade_taylor_coeffs p =
     map (series_coeff (pade_function p) 0) [0..<nat (order_m p + order_n p + 1)]"
  by (simp add: pade_taylor_coeffs_def sympy_series_def coeff_def Let_def)

lemma sin_series_6:
  "map (series_coeff (Sin Sym) 0) [0..<6] = [0, 1, 0, - 1 / 6, 0, 1 / 120]"
  by (simp add: series_coeff_def diff_n_def eval_nat_numeral upt_rec)

lemma pade_sin_coeffs:
  "pade [0, 1, 0, - 1 / 6, 0, 1 / 120] 2 = Inr ([- 7 / 60, 0, 1, 0], [1 / 20, 0, 1])"
  by (simp add: pade_def pade_matrix_def Let_def linalg_solve_def eye_row_def Bkj_row_def
      eliminate_def dot_def poly1d_def eval_nat_numeral upt_rec)

text \<open>
  The demonstration of \<^verbatim>\<open>main.py\<close>, \<^verbatim>\<open>PadeApproximation(func, 3, 2)\<close> for \<open>sin\<close>: the
  numerator is \<open>x - 7x\<^sup>3/60\<close> and the denominator \<open>1 + x\<^sup>2/20\<close>, whatever the stored point.
\<close>

lemma pade_sin_3_2:
  "pade_compute_coefficients (pade_init (Sin Sym) 3 2 a) =
     Inr ((pade_init (Sin Sym) 3 2 a)\<lparr>numerator := Some [- 7 / 60, 0, 1, 0],
                                     denominator := Some [1 / 20, 0, 1]\<rparr>)"
proof -
  have tc: "pade_taylor_coeffs (pade_init (Sin Sym) 3 2 a) = [0, 1, 0, - 1 / 6, 0, 1 / 120]"
    unfolding pade_taylor_coeffs_eq by (simp add: pade_init_def sin_series_6)
  have on: "order_n (pade_init (Sin Sym) 3 2 a) = 2"
    by (simp add: pade_init_def)
  have "pade (pade_taylor_coeffs (pade_init (Sin Sym) 3 2 a)) (order_n (pade_init (Sin Sym) 3 2 a))
      = Inr ([- 7 / 60, 0, 1, 0], [1 / 20, 0, 1])"
    unfolding tc on by (rule pade_sin_coeffs)
  then show ?thesis
    unfolding pade_compute_coefficients_def Let_def by simp
qed

lemma rational_series_sin:
  "rational_series [- 7 / 60, 0, 1, 0] [1 / 20, 0, 1] 6 = [0, 1, 0, - 1 / 6, 0, 1 / 120]"
  by (simp add: rational_series_def rational_series_step_def poly_coeff_def eval_nat_numeral
      upt_rec)

text \<open>
  C2. \<^verbatim>\<open>compute_coefficients\<close> does not expand about \<^verbatim>\<open>self.point\<close>: the expansion is
  about \<open>0\<close> whatever the point is. For \<open>f(x) = x\<^sup>2\<close>, orders \<open>(1, 0)\<close> and point \<open>1\<close> the
  extracted coefficients are \<open>[0, 0]\<close>, those of \<open>x\<^sup>2\<close> about \<open>0\<close>, where the expansion about
  the point \<open>1\<close> has \<open>[1, 2]\<close>; the stored numerator is the zero polynomial.
\<close>

theorem pade_expansion_ignores_point:
  "pade_taylor_coeffs (pade_init (Pw Sym 2) 1 0 1) = [0, 0]
   \<and> map (series_coeff (Pw Sym 2) 1) [0..<2] = [1, 2]
   \<and> pade_compute_coefficients (pade_init (Pw Sym 2) 1 0 1) =
       Inr ((pade_init (Pw Sym 2) 1 0 1)\<lparr>numerator := Some [0], denominator := Some [1]\<rparr>)"
proof -
  have tc: "pade_taylor_coeffs (pade_init (Pw Sym 2) 1 0 1) = [0, 0]"
    unfolding pade_taylor_coeffs_eq
    by (simp add: pade_init_def series_coeff_def diff_n_def eval_nat_numeral upt_rec)
  have sc: "map (series_coeff (Pw Sym 2) 1) [0..<2] = [1, 2]"
    by (simp add: series_coeff_def diff_n_def eval_nat_numeral upt_rec)
  have pd: "pade [0, 0] 0 = Inr ([0], [1])"
    by (simp add: pade_def pade_matrix_def Let_def linalg_solve_def eye_row_def Bkj_row_def
      eliminate_def dot_def poly1d_def eval_nat_numeral upt_rec)
  have on: "order_n (pade_init (Pw Sym 2) 1 0 1) = 0"
    by (simp add: pade_init_def)
  have "pade (pade_taylor_coeffs (pade_init (Pw Sym 2) 1 0 1))
          (order_n (pade_init (Pw Sym 2) 1 0 1)) = Inr ([0], [1])"
    unfolding tc on by (rule pd)
  then have "pade_compute_coefficients (pade_init (Pw Sym 2) 1 0 1) =
       Inr ((pade_init (Pw Sym 2) 1 0 1)\<lparr>numerator := Some [0], denominator := Some [1]\<rparr>)"
    unfolding pade_compute_coefficients_def Let_def by simp
  with tc sc show ?thesis by simp
qed

text \<open>
  C3. For \<open>sin\<close>, orders \<open>(3, 2)\<close> and point \<open>0\<close>, \<^verbatim>\<open>compute_coefficients\<close> succeeds, and
  the quotient of the stored numerator and denominator, expanded about \<open>0\<close>, has the
  Taylor coefficients of \<open>sin\<close> for the powers \<open>0..5\<close>. In exact arithmetic the
  coefficients are equal; the rounding of the floating-point solver is not modelled.
\<close>

theorem pade_sin_3_2_reconstruction:
  "pade_compute_coefficients (pade_init (Sin Sym) 3 2 0) =
     Inr ((pade_init (Sin Sym) 3 2 0)\<lparr>numerator := Some [- 7 / 60, 0, 1, 0],
                                     denominator := Some [1 / 20, 0, 1]\<rparr>)
   \<and> rational_series [- 7 / 60, 0, 1, 0] [1 / 20, 0, 1] 6
       = map (series_coeff (Sin Sym) 0) [0..<6]"
  using pade_sin_3_2 [of 0] rational_series_sin sin_series_6 by simp

text \<open>
  C8, as the spec states it: the stored denominator has leading coefficient \<open>1\<close>. It
  fails for \<open>sin\<close> with orders \<open>(3, 2)\<close>: the denominator is \<open>x\<^sup>2/20 + 1\<close>, stored highest
  power first, and its leading coefficient is \<open>1/20\<close>.
\<close>

theorem denominator_leading_counterexample:
  "map_sum id denominator (pade_compute_coefficients (pade_init (Sin Sym) 3 2 0))
     = Inr (Some [1 / 20, 0, 1])
   \<and> hd [1 / 20, 0, 1 :: real] \<noteq> 1"
  using pade_sin_3_2 [of 0] by simp

lemma poly1d_last:
  assumes "c \<noteq> []" and "last c \<noteq> 0"
  shows "poly1d c \<noteq> [] \<and> last (poly1d c) = last c"
proof -
  have ne: "dropWhile (\<lambda>v. v = 0) c \<noteq> []"
    using assms by (metis (mono_tags, lifting) dropWhile_eq_Nil_conv last_in_set)
  have "last (dropWhile (\<lambda>v. v = 0) c) = last c"
    using ne by (metis last_appendR takeWhile_dropWhile_id)
  with ne show ?thesis
    by (auto simp: poly1d_def split: list.splits)
qed

lemma pade_denominator_last:
  assumes "pade an m = Inr (num, den)"
  shows "den \<noteq> [] \<and> last den = 1"
proof -
  from assms obtain pq where den: "den = poly1d (rev (1 # pq))"
    by (auto simp: pade_def Let_def split: if_splits sum.splits)
  show ?thesis unfolding den using poly1d_last [of "rev (1 # pq)"] by simp
qed

text \<open>
  C8, amended: after a successful \<^verbatim>\<open>compute_coefficients\<close> the stored denominator is
  normalised so that its constant term, the last coefficient of the \<^verbatim>\<open>poly1d\<close>, is \<open>1\<close>.
\<close>

theorem denominator_constant_term_is_one:
  assumes "pade_compute_coefficients p = Inr p'"
  shows "\<exists>den. denominator p' = Some den \<and> den \<noteq> [] \<and> last den = 1"
proof -
  from assms obtain num den where
    pd: "pade (pade_taylor_coeffs p) (order_n p) = Inr (num, den)"
    and p': "p' = p\<lparr>numerator := Some num, denominator := Some den\<rparr>"
    by (auto simp: pade_compute_coefficients_def Let_def split: sum.splits)
  from pade_denominator_last [OF pd] show ?thesis by (simp add: p')
qed

theorem denominator_constant_term_is_one_witness:
  "pade_compute_coefficients (pade_init (Sin Sym) 3 2 0) =
     Inr ((pade_init (Sin Sym) 3 2 0)\<lparr>numerator := Some [- 7 / 60, 0, 1, 0],
                                     denominator := Some [1 / 20, 0, 1]\<rparr>)
   \<and> (\<exists>den. denominator ((pade_init (Sin Sym) 3 2 0)\<lparr>numerator := Some [- 7 / 60, 0, 1, 0],
                                     denominator := Some [1 / 20, 0, 1]\<rparr>) = Some den
         \<and> den \<noteq> [] \<and> last den = 1)"
  using denominator_constant_term_is_one [OF pade_sin_3_2 [of 0]] pade_sin_3_2 [of 0] by blast

text \<open>
  C9. Two instances that differ only in the stored point give the same result of
  \<^verbatim>\<open>compute_coefficients\<close>: the same error, or the same numerator and denominator. The
  computation never reads the point.
\<close>

theorem pade_point_is_ignored:
  "map_sum id (\<lambda>s. (numerator s, denominator s)) (pade_compute_coefficients (pade_init f m n p1))
   = map_sum id (\<lambda>s. (numerator s, denominator s)) (pade_compute_coefficients (pade_init f m n p2))"
  by (simp add: pade_compute_coefficients_def pade_taylor_coeffs_def pade_init_def Let_def
      split: sum.splits prod.splits)

section \<open>The linear solver fails on a singular system\<close>

lemma dot_Nil [simp]: "dot [] v = 0" "dot u [] = 0"
  by (simp_all add: dot_def)

lemma dot_Cons [simp]: "dot (x # xs) (y # ys) = x * y + dot xs ys"
  by (simp add: dot_def)


lemma dot_append_left: "length u = length v \<Longrightarrow> dot (u @ w) v = dot u v"
  by (simp add: dot_def zip_append1)

lemma dot_map_divide: "dot (map (\<lambda>x. x / a) ps) v = dot ps v / a"
proof (induction ps arbitrary: v)
  case Nil
  show ?case by simp
next
  case (Cons x ps)
  show ?case by (cases v) (simp_all add: Cons.IH add_divide_distrib)
qed

lemma dot_map2_sub:
  "length ps = length rs \<Longrightarrow>
   dot (map2 (\<lambda>pv rv. rv - b * pv) ps rs) v = dot rs v - b * dot ps v"
proof (induction ps rs arbitrary: v rule: list_induct2)
  case Nil
  show ?case by simp
next
  case (Cons x xs y ys)
  show ?case
  proof (cases v)
    case Nil
    then show ?thesis by simp
  next
    case v: (Cons z zs)
    have "dot (map2 (\<lambda>pv rv. rv - b * pv) (x # xs) (y # ys)) (z # zs)
        = (y - b * x) * z + (dot ys zs - b * dot xs zs)"
      by (simp add: Cons.IH)
    also have "\<dots> = dot (y # ys) (z # zs) - b * dot (x # xs) (z # zs)"
      by (simp add: algebra_simps)
    finally show ?thesis unfolding v .
  qed
qed

lemma find_pivot_Some:
  "find_pivot rows = Some (p, others) \<Longrightarrow>
   p \<noteq> [] \<and> hd p \<noteq> 0 \<and> set rows = insert p (set others) \<and> length rows = Suc (length others)"
proof (induction rows arbitrary: p others)
  case Nil
  then show ?case by simp
next
  case (Cons r rs)
  show ?case
  proof (cases "r \<noteq> [] \<and> hd r \<noteq> 0")
    case True
    with Cons.prems show ?thesis by auto
  next
    case False
    with Cons.prems obtain others' where
      fp: "find_pivot rs = Some (p, others')" and o: "others = r # others'"
      by (auto split: option.splits)
    from Cons.IH [OF fp] o show ?thesis by auto
  qed
qed




text \<open>
  When the solver returns, what it returns solves the system: every row of the matrix,
  multiplied with the result, gives the entry of the right-hand side. Together with
  \<open>gauss_kernel\<close> this makes the result the only solution, whichever pivot is taken.
\<close>

lemma dot_butlast: "length u = Suc (length v) \<Longrightarrow> dot (butlast u) v = dot u v"
proof (induction v arbitrary: u)
  case Nil
  then show ?case by (cases u) simp_all
next
  case (Cons y ys)
  then obtain x xs where u: "u = x # xs" by (cases u) auto
  with Cons.prems have l: "length xs = Suc (length ys)" by simp
  then have "xs \<noteq> []" by auto
  then show ?case using Cons.IH [OF l] by (simp add: u)
qed

lemma last_map2:
  "length us = length vs \<Longrightarrow> us \<noteq> [] \<Longrightarrow> last (map2 f us vs) = f (last us) (last vs)"
proof -
  assume l: "length us = length vs" and ne: "us \<noteq> []"
  then have vne: "vs \<noteq> []" by auto
  have zne: "map2 f us vs \<noteq> []" using ne vne by (cases us; cases vs) simp_all
  have i: "length vs - 1 < length vs" using vne by (cases vs) simp_all
  have "last (map2 f us vs) = map2 f us vs ! (length vs - 1)"
    using zne l by (simp add: last_conv_nth)
  also have "\<dots> = f (us ! (length vs - 1)) (vs ! (length vs - 1))"
    using i l by simp
  also have "\<dots> = f (last us) (last vs)"
    using ne vne l by (simp add: last_conv_nth)
  finally show ?thesis .
qed

lemma gauss_sound:
  assumes "gauss n rows = Inr xs"
    and "length rows = n"
    and "\<forall>r\<in>set rows. length r = Suc n"
  shows "length xs = n \<and> (\<forall>r\<in>set rows. dot r xs = last r)"
  using assms
proof (induction n arbitrary: rows xs)
  case 0
  then show ?case by simp
next
  case (Suc n)
  from Suc.prems(1) obtain p others xs' where
    fp: "find_pivot rows = Some (p, others)"
    and rec: "gauss n (map (eliminate (map (\<lambda>v. v / hd p) p)) others) = Inr xs'"
    and xs: "xs = (last (map (\<lambda>v. v / hd p) p)
                  - dot (butlast (tl (map (\<lambda>v. v / hd p) p))) xs') # xs'"
    by (auto simp: Let_def split: option.splits sum.splits)
  from find_pivot_Some [OF fp] have
    pne: "p \<noteq> []" and a0: "hd p \<noteq> 0" and
    rows: "set rows = insert p (set others)" and len: "length rows = Suc (length others)"
    by auto
  obtain a pt where p: "p = a # pt" using pne by (cases p) auto
  have a: "a \<noteq> 0" using a0 p by simp
  have lp: "length pt = Suc n" using Suc.prems(3) rows p by auto
  then have ptne: "pt \<noteq> []" by auto
  have lo: "length (map (eliminate (map (\<lambda>v. v / hd p) p)) others) = n"
    using len Suc.prems(2) by simp
  have lred: "\<forall>r\<in>set (map (eliminate (map (\<lambda>v. v / hd p) p)) others). length r = Suc n"
  proof
    fix r' assume "r' \<in> set (map (eliminate (map (\<lambda>v. v / hd p) p)) others)"
    then obtain r where r: "r \<in> set others"
      and r': "r' = eliminate (map (\<lambda>v. v / hd p) p) r" by auto
    have "length r = Suc (Suc n)" using Suc.prems(3) rows r by auto
    then show "length r' = Suc n" by (simp add: r' eliminate_def p lp)
  qed
  from Suc.IH [OF rec lo lred] have lxs': "length xs' = n"
    and ih: "\<forall>r\<in>set (map (eliminate (map (\<lambda>v. v / hd p) p)) others). dot r xs' = last r"
    by auto
  define x0 where "x0 = last pt / a - dot pt xs' / a"
  have x0: "xs = x0 # xs'"
    unfolding xs x0_def
    by (simp add: p ptne last_map dot_butlast lp lxs' dot_map_divide)
  have dp: "dot p xs = last p"
    using a by (simp add: x0 p ptne x0_def algebra_simps diff_divide_distrib)
  have dr: "dot r xs = last r" if r: "r \<in> set others" for r
  proof -
    have lr: "length r = Suc (Suc n)" using Suc.prems(3) rows r by auto
    then obtain b rt where rb: "r = b # rt" by (cases r) auto
    have lrt: "length rt = Suc n" using lr rb by simp
    then have rtne: "rt \<noteq> []" by auto
    let ?r' = "map2 (\<lambda>pv rv. rv - b * pv) (map (\<lambda>x. x / a) pt) rt"
    have e: "eliminate (map (\<lambda>v. v / hd p) p) r = ?r'"
      by (simp add: eliminate_def p rb)
    have "dot ?r' xs' = last ?r'" using ih r e by auto
    moreover have "dot ?r' xs' = dot rt xs' - b * (dot pt xs' / a)"
      by (simp add: dot_map2_sub lp lrt dot_map_divide)
    moreover have "last ?r' = last rt - b * (last pt / a)"
      by (simp add: last_map2 lp lrt ptne last_map)
    ultimately have "dot rt xs' = last rt - b * (last pt / a) + b * (dot pt xs' / a)"
      by simp
    then show ?thesis
      by (simp add: x0 rb rtne x0_def algebra_simps)
  qed
  show ?case using dp dr rows lxs' x0 by auto
qed

lemma linalg_solve_sound:
  assumes s: "linalg_solve C b = Inr xs"
    and lc: "length C = k" and rl: "\<forall>row\<in>set C. length row = k" and lb: "length b = k"
  shows "length xs = k \<and> (\<forall>i<k. dot (C ! i) xs = b ! i)"
proof -
  let ?rows = "map2 (\<lambda>row v. row @ [v]) C b"
  have g: "gauss k ?rows = Inr xs" using s lc by (simp add: linalg_solve_def)
  have l: "length ?rows = k" using lc lb by simp
  have r: "\<forall>r\<in>set ?rows. length r = Suc k"
  proof
    fix r assume "r \<in> set ?rows"
    then obtain row x where rx: "(row, x) \<in> set (zip C b)" and r: "r = row @ [x]" by auto
    from rx have "row \<in> set C" by (rule set_zip_leftD)
    with rl show "length r = Suc k" by (simp add: r)
  qed
  from gauss_sound [OF g l r] have lx: "length xs = k"
    and sol: "\<forall>r\<in>set ?rows. dot r xs = last r" by auto
  have "dot (C ! i) xs = b ! i" if i: "i < k" for i
  proof -
    have "?rows ! i = C ! i @ [b ! i]" using i lc lb by simp
    moreover have "?rows ! i \<in> set ?rows" using i l by (metis nth_mem)
    ultimately have "dot (C ! i @ [b ! i]) xs = b ! i" using sol by auto
    moreover have "length (C ! i) = length xs" using rl i lc lx by auto
    ultimately show ?thesis by (simp add: dot_append_left)
  qed
  with lx show ?thesis by simp
qed

lemma length_pade_taylor_coeffs:
  "length (pade_taylor_coeffs p) = nat (order_m p + order_n p + 1)"
  by (simp add: pade_taylor_coeffs_eq)

lemma length_Bkj_row:
  assumes "length an = m + n + 1" and "row < m + n + 1"
  shows "length (Bkj_row an m row) = m"
  using assms by (auto simp: Bkj_row_def)

lemma pade_matrix_rows:
  assumes "length an = m + n + 1"
  shows "length (pade_matrix an m n) = m + n + 1"
    and "\<forall>row\<in>set (pade_matrix an m n). length row = m + n + 1"
  using assms by (auto simp: pade_matrix_def eye_row_def length_Bkj_row)




section \<open>The result of pade satisfies the Pade conditions\<close>

text \<open>
  For orders that are not negative, whenever \<^verbatim>\<open>compute_coefficients\<close> returns, the
  stored polynomials \<open>P\<close> and \<open>Q\<close> satisfy \<open>\<Sum>\<^bsub>j\<le>k\<^esub> q\<^sub>j a\<^bsub>k-j\<^esub> = p\<^sub>k\<close> for every \<open>k\<close> up to the
  sum of the orders, where \<open>a\<close> are the extracted series coefficients and \<open>q\<^sub>0 = 1\<close>; so
  the series of \<open>P / Q\<close> about \<open>0\<close> has the coefficients of the function up to that power.
\<close>

lemma dot_sum: "length u = length v \<Longrightarrow> dot u v = (\<Sum>i<length v. u ! i * v ! i)"
proof -
  assume l: "length u = length v"
  have "dot u v = (\<Sum>i = 0..<length (map2 (*) u v). map2 (*) u v ! i)"
    unfolding dot_def by (rule sum_list_sum_nth)
  also have "\<dots> = (\<Sum>i = 0..<length v. u ! i * v ! i)"
    using l by (intro sum.cong) simp_all
  finally show ?thesis by (simp add: lessThan_atLeast0)
qed

lemma dot_append: "length u = length v \<Longrightarrow> dot (u @ w) (v @ z) = dot u v + dot w z"
  by (simp add: dot_def)

lemma dot_eye_row:
  "length p = k \<Longrightarrow> dot (eye_row k i) p = (if i < k then p ! i else 0)"
proof -
  assume l: "length p = k"
  have "dot (eye_row k i) p = (\<Sum>c<k. eye_row k i ! c * p ! c)"
    using l by (simp add: dot_sum eye_row_def)
  also have "\<dots> = (\<Sum>c<k. if c = i then p ! c else 0)"
    by (intro sum.cong) (simp_all add: eye_row_def)
  also have "\<dots> = (if i < k then p ! i else 0)"
    by (simp add: sum.delta)
  finally show ?thesis .
qed

lemma Bkj_row_nth:
  assumes "j < m" and "i \<le> length an"
  shows "Bkj_row an m i ! j = (if j < i then - an ! (i - 1 - j) else 0)"
proof -
  consider "i = 0" | "1 \<le> i" "i \<le> m" | "m + 1 \<le> i" by linarith
  then show ?thesis
  proof cases
    case 1
    then show ?thesis using assms by (simp add: Bkj_row_def)
  next
    case 2
    show ?thesis
    proof (cases "j < i")
      case True
      then have "Bkj_row an m i ! j = - (rev (take i an) ! j)"
        using 2 assms by (simp add: Bkj_row_def nth_append)
      also have "\<dots> = - an ! (i - 1 - j)"
        using True assms by (simp add: rev_nth)
      finally show ?thesis using True by simp
    next
      case False
      then show ?thesis using 2 assms by (simp add: Bkj_row_def nth_append)
    qed
  next
    case 3
    then have ji: "j < i" using assms by simp
    have "Bkj_row an m i ! j = - (rev (take m (drop (i - m) an)) ! j)"
      using 3 assms by (simp add: Bkj_row_def)
    also have "\<dots> = - (take m (drop (i - m) an) ! (m - 1 - j))"
      using 3 assms by (simp add: rev_nth)
    also have "\<dots> = - an ! (i - 1 - j)"
      using 3 assms by simp
    finally show ?thesis using ji by simp
  qed
qed

lemma poly_coeff_poly1d: "poly_coeff (poly1d c) k = poly_coeff c k"
proof -
  define zs where "zs = takeWhile (\<lambda>v. v = 0) c"
  define d where "d = dropWhile (\<lambda>v. v = 0) c"
  have c: "c = zs @ d" by (simp add: zs_def d_def)
  have z: "\<forall>v\<in>set zs. v = 0" unfolding zs_def by (auto dest: set_takeWhileD)
  have zn: "rev zs ! i = 0" if "i < length zs" for i
  proof -
    have "rev zs ! i \<in> set zs" using that by (metis length_rev nth_mem set_rev)
    with z show ?thesis by simp
  qed
  show ?thesis
  proof (cases d)
    case Nil
    then have "poly1d c = [0]" by (simp only: poly1d_def d_def [symmetric] list.case)
    moreover have "poly_coeff c k = 0"
      using zn [of k] by (simp add: poly_coeff_def c Nil)
    ultimately show ?thesis by (simp add: poly_coeff_def)
  next
    case (Cons v vs)
    then have "poly1d c = d" by (simp only: poly1d_def d_def [symmetric] list.case)
    moreover have "poly_coeff c k = poly_coeff d k"
      using zn [of "k - length d"] by (auto simp: poly_coeff_def c nth_append)
    ultimately show ?thesis by simp
  qed
qed

lemma poly_coeff_rev: "poly_coeff (rev c) k = (if k < length c then c ! k else 0)"
  by (simp add: poly_coeff_def)

lemma sum_if_swap:
  "(\<Sum>j<k. if j < m then g j else 0) = (\<Sum>j<m. if j < (k::nat) then g j else (0::real))"
proof -
  have "(\<Sum>j<k. if j < m then g j else 0) = sum g {x \<in> {..<k}. x < m}"
    by (rule sum.inter_filter [symmetric]) simp
  also have "{x \<in> {..<k}. x < m} = {x \<in> {..<m}. x < k}" by auto
  also have "sum g {x \<in> {..<m}. x < k} = (\<Sum>j<m. if j < k then g j else 0)"
    by (rule sum.inter_filter) simp
  finally show ?thesis .
qed

lemma pade_matching:
  assumes pd: "pade an (int m) = Inr (P, Q)" and len: "length an = m + n + 1"
    and k: "k \<le> m + n"
  shows "(\<Sum>j\<le>k. poly_coeff Q j * an ! (k - j)) = poly_coeff P k \<and> poly_coeff Q 0 = 1"
proof -
  have n: "int (length an) - 1 - int m = int n" using len by simp
  have tk: "take (nat (int m + int n + 1)) an = an" using len by (simp add: nat_add_distrib)
  from pd obtain pq where
    sol: "linalg_solve (pade_matrix an m n) an = Inr pq"
    and P: "P = poly1d (rev (take (n + 1) pq))"
    and Q: "Q = poly1d (rev (1 # drop (n + 1) pq))"
    unfolding pade_def Let_def n tk
    by (auto simp: nat_add_distrib split: if_splits sum.splits)
  note lc = pade_matrix_rows(1) [OF len] and rl = pade_matrix_rows(2) [OF len]
  have k': "k < m + n + 1" using k by arith
  have lB: "length (Bkj_row an m k) = m" using len k' by (rule length_Bkj_row)
  from linalg_solve_sound [OF sol lc rl len] have lpq: "length pq = m + n + 1"
    and eq: "\<forall>i<m + n + 1. dot (pade_matrix an m n ! i) pq = an ! i" by auto
  define p where "p = take (n + 1) pq"
  define qt where "qt = drop (n + 1) pq"
  have pq: "pq = p @ qt" by (simp add: p_def qt_def)
  have lp: "length p = n + 1" using lpq by (simp add: p_def)
  have lq: "length qt = m" using lpq by (simp add: qt_def)
  have row: "pade_matrix an m n ! k = eye_row (n + 1) k @ Bkj_row an m k"
    using k by (simp add: pade_matrix_def del: upt_Suc)
  have "dot (pade_matrix an m n ! k) pq = dot (eye_row (n + 1) k) p + dot (Bkj_row an m k) qt"
    unfolding row pq using lp by (intro dot_append) (simp add: eye_row_def)
  also have "dot (eye_row (n + 1) k) p = (if k < n + 1 then p ! k else 0)"
    using lp by (rule dot_eye_row)
  also have "dot (Bkj_row an m k) qt = (\<Sum>j<m. Bkj_row an m k ! j * qt ! j)"
    using lq lB by (simp add: dot_sum)
  also have "\<dots> = (\<Sum>j<m. if j < k then - an ! (k - 1 - j) * qt ! j else 0)"
    using k len by (intro sum.cong) (simp_all add: Bkj_row_nth)
  finally have e1: "(if k < n + 1 then p ! k else 0)
      + (\<Sum>j<m. if j < k then - an ! (k - 1 - j) * qt ! j else 0) = an ! k"
    using eq k by simp
  have Pk: "poly_coeff P k = (if k < n + 1 then p ! k else 0)"
    unfolding P p_def [symmetric] by (simp add: poly_coeff_poly1d poly_coeff_rev lp)
  have Qj: "poly_coeff Q j = (if j = 0 then 1 else if j \<le> m then qt ! (j - 1) else 0)" for j
    unfolding Q qt_def [symmetric] using lq
    by (cases j) (simp_all add: poly_coeff_poly1d poly_coeff_rev del: rev.simps)
  have "(\<Sum>j\<le>k. poly_coeff Q j * an ! (k - j))
      = (\<Sum>j<Suc k. poly_coeff Q j * an ! (k - j))"
    by (simp only: lessThan_Suc_atMost)
  also have "\<dots> = poly_coeff Q 0 * an ! (k - 0)
      + (\<Sum>j<k. poly_coeff Q (Suc j) * an ! (k - Suc j))"
    by (rule sum.lessThan_Suc_shift)
  also have "poly_coeff Q 0 * an ! (k - 0) = an ! k"
    by (simp add: Qj)
  also have "(\<Sum>j<k. poly_coeff Q (Suc j) * an ! (k - Suc j))
      = (\<Sum>j<k. if j < m then qt ! j * an ! (k - 1 - j) else 0)"
    by (intro sum.cong) (auto simp: Qj)
  also have "\<dots> = (\<Sum>j<m. if j < k then qt ! j * an ! (k - 1 - j) else 0)"
    by (rule sum_if_swap)
  finally have e2: "(\<Sum>j\<le>k. poly_coeff Q j * an ! (k - j))
      = an ! k + (\<Sum>j<m. if j < k then qt ! j * an ! (k - 1 - j) else 0)" .
  have "(\<Sum>j<m. if j < k then - an ! (k - 1 - j) * qt ! j else 0)
      = (\<Sum>j<m. - (if j < k then qt ! j * an ! (k - 1 - j) else 0))"
    by (intro sum.cong) simp_all
  also have "\<dots> = - (\<Sum>j<m. if j < k then qt ! j * an ! (k - 1 - j) else 0)"
    by (rule sum_negf)
  finally have e3: "(\<Sum>j<m. if j < k then - an ! (k - 1 - j) * qt ! j else 0)
      = - (\<Sum>j<m. if j < k then qt ! j * an ! (k - 1 - j) else 0)" .
  have "(\<Sum>j\<le>k. poly_coeff Q j * an ! (k - j)) = poly_coeff P k"
    unfolding e2 Pk using e1 unfolding e3 by simp
  then show ?thesis by (simp add: Qj)
qed

lemma rational_series_Suc:
  "rational_series P Q (Suc k) = rational_series_step P Q k (rational_series P Q k)"
  by (simp add: rational_series_def)

lemma rational_series_take:
  assumes match: "\<forall>k<N. (\<Sum>j\<le>k. poly_coeff Q j * an ! (k - j)) = poly_coeff P k"
    and q0: "poly_coeff Q 0 = 1" and N: "N \<le> length an"
  shows "k \<le> N \<Longrightarrow> rational_series P Q k = take k an"
proof (induction k)
  case 0
  show ?case by (simp add: rational_series_def)
next
  case (Suc k)
  then have ih: "rational_series P Q k = take k an" and k: "k < N" by simp_all
  have "(\<Sum>j\<leftarrow>[1..<Suc k]. poly_coeff Q j * take k an ! (k - j))
      = (\<Sum>j\<in>{1..<Suc k}. poly_coeff Q j * take k an ! (k - j))"
    by (simp only: interv_sum_list_conv_sum_set_nat set_upt)
  also have "\<dots> = (\<Sum>j\<in>{1..<Suc k}. poly_coeff Q j * an ! (k - j))"
    by (intro sum.cong) auto
  finally have s1: "(\<Sum>j\<leftarrow>[1..<Suc k]. poly_coeff Q j * take k an ! (k - j))
      = (\<Sum>j\<in>{1..<Suc k}. poly_coeff Q j * an ! (k - j))" .
  have "(\<Sum>j\<le>k. poly_coeff Q j * an ! (k - j))
      = (\<Sum>j\<in>{0..k}. poly_coeff Q j * an ! (k - j))"
    by (simp only: atMost_atLeast0)
  also have "\<dots> = poly_coeff Q 0 * an ! (k - 0)
      + (\<Sum>j\<in>{Suc 0..k}. poly_coeff Q j * an ! (k - j))"
    by (rule sum.atLeast_Suc_atMost) simp
  also have "{Suc 0..k} = {1..<Suc k}" by auto
  finally have "an ! k = poly_coeff P k
      - (\<Sum>j\<in>{1..<Suc k}. poly_coeff Q j * an ! (k - j))"
    using match k by (simp add: q0)
  then have "rational_series_step P Q k (take k an) = take k an @ [an ! k]"
    unfolding rational_series_step_def s1 by (simp add: q0)
  also have "\<dots> = take (Suc k) an"
    using k N by (simp add: take_Suc_conv_app_nth)
  finally show ?case by (simp only: rational_series_Suc ih)
qed

lemma pade_reconstruction:
  assumes c: "pade_compute_coefficients p = Inr s"
    and m0: "0 \<le> order_m p" and n0: "0 \<le> order_n p"
  shows "\<exists>P Q. numerator s = Some P \<and> denominator s = Some Q
     \<and> rational_series P Q (nat (order_m p + order_n p + 1))
         = map (series_coeff (pade_function p) 0) [0..<nat (order_m p + order_n p + 1)]"
proof -
  define an where "an = pade_taylor_coeffs p"
  define m where "m = nat (order_n p)"
  define n where "n = nat (order_m p)"
  have N: "nat (order_m p + order_n p + 1) = m + n + 1"
    using m0 n0 by (simp add: m_def n_def nat_add_distrib)
  have len: "length an = m + n + 1"
    by (simp only: an_def length_pade_taylor_coeffs N)
  from c obtain P Q where pd: "pade an (order_n p) = Inr (P, Q)"
    and s: "s = p\<lparr>numerator := Some P, denominator := Some Q\<rparr>"
    by (auto simp: pade_compute_coefficients_def Let_def an_def split: sum.splits)
  have pd': "pade an (int m) = Inr (P, Q)" using pd n0 by (simp add: m_def)
  have match: "\<forall>k<m + n + 1. (\<Sum>j\<le>k. poly_coeff Q j * an ! (k - j)) = poly_coeff P k"
    using pade_matching [OF pd' len] by simp
  have q0: "poly_coeff Q 0 = 1"
    using pade_matching [OF pd' len, of 0] by simp
  have "rational_series P Q (m + n + 1) = take (m + n + 1) an"
    using match q0 by (rule rational_series_take) (simp_all add: len)
  also have "\<dots> = an" using len by simp
  also have "an = map (series_coeff (pade_function p) 0) [0..<m + n + 1]"
    unfolding an_def by (simp only: pade_taylor_coeffs_eq N)
  finally show ?thesis by (simp add: s N)
qed

section \<open>Negative degree and orders\<close>

text \<open>
  C4, as the spec states it: a negative degree is rejected with an error. It fails:
  with degree \<open>-1\<close> the constructor and \<^verbatim>\<open>compute_coefficients\<close> of
  \<^verbatim>\<open>TaylorApproximation\<close> both return normally and the coefficient list stays empty.
\<close>

theorem negative_degree_counterexample:
  "taylor_compute_coefficients (taylor_init (Sin Sym) (- 1) 0) = taylor_init (Sin Sym) (- 1) 0
   \<and> coefficients (taylor_compute_coefficients (taylor_init (Sin Sym) (- 1) 0)) = []"
  by (simp add: taylor_compute_coefficients_def taylor_init_def)

text \<open>
  C4, amended: no parameter is validated. For every negative degree
  \<^verbatim>\<open>TaylorApproximation.compute_coefficients\<close> returns normally and leaves the new
  instance as it was, with an empty coefficient list. \<^verbatim>\<open>PadeApproximation\<close> accepts
  negative orders when it is built; with a negative \<open>order_m\<close> or \<open>order_n\<close> (and
  \<open>order_m + order_n \<ge> 0\<close>, so that the series is asked for at least one term)
  \<^verbatim>\<open>compute_coefficients\<close> fails only in its last statement, with the \<^verbatim>\<open>ValueError\<close>
  raised inside \<^verbatim>\<open>scipy.interpolate.pade\<close>.
\<close>

theorem negative_parameters_not_validated:
  "(d < 0 \<longrightarrow>
      taylor_compute_coefficients (taylor_init f d a) = taylor_init f d a
      \<and> coefficients (taylor_compute_coefficients (taylor_init f d a)) = [])
   \<and> ((m < 0 \<or> n < 0) \<and> 0 \<le> m + n \<longrightarrow>
      pade_compute_coefficients (pade_init g m n b) = Inl ValueError)"
proof -
  have t: "taylor_compute_coefficients (taylor_init f d a) = taylor_init f d a
      \<and> coefficients (taylor_compute_coefficients (taylor_init f d a)) = []" if "d < 0"
    using that by (simp add: taylor_compute_coefficients_def taylor_init_def)
  have p: "pade_compute_coefficients (pade_init g m n b) = Inl ValueError"
    if neg: "m < 0 \<or> n < 0" and mn: "0 \<le> m + n"
  proof -
    have l: "int (length (pade_taylor_coeffs (pade_init g m n b))) = m + n + 1"
      using mn by (simp add: length_pade_taylor_coeffs pade_init_def)
    have "pade (pade_taylor_coeffs (pade_init g m n b)) n = Inl ValueError"
      unfolding pade_def l Let_def using neg by auto
    then show ?thesis
      by (simp add: pade_compute_coefficients_def Let_def) (simp add: pade_init_def)
  qed
  from t p show ?thesis by blast
qed

theorem negative_parameters_not_validated_witness:
  "coefficients (taylor_compute_coefficients (taylor_init (Sin Sym) (- 3) 0)) = []
   \<and> pade_compute_coefficients (pade_init (Sin Sym) (- 1) 2 0) = Inl ValueError
   \<and> pade_compute_coefficients (pade_init (Sin Sym) 3 (- 1) 0) = Inl ValueError"
  using negative_parameters_not_validated [of "- 3" "Sin Sym" 0 "- 1" 2 "Sin Sym" 0]
    negative_parameters_not_validated [of "- 3" "Sin Sym" 0 3 "- 1" "Sin Sym" 0]
  by simp

end
